theory Spec2Isabelle
  imports Main "HOL-Library.Word"
begin

section \<open>JavaScript strings and Buffers\<close>

text \<open>
  A Node \<open>Buffer\<close> is a sequence of bytes; a JavaScript string is a sequence of UTF-16
  code units. \<open>indexOf\<close>, \<open>slice\<close> and \<open>trim\<close> are the String.prototype methods that
  \<open>handleData\<close> and the stderr handler call, with their sentinel (\<open>-1\<close>) and their
  clamping of indices as ECMAScript defines them.
\<close>

type_synonym byte = "8 word"
type_synonym code_unit = "16 word"
type_synonym jsstring = "code_unit list"

definition nl :: code_unit where
  "nl = 0x0A"

fun indexOf :: "'a list \<Rightarrow> 'a \<Rightarrow> int" where
  "indexOf [] c = -1"
| "indexOf (x # xs) c =
     (if x = c then 0 else (if indexOf xs c = -1 then -1 else indexOf xs c + 1))"

definition slice_index :: "nat \<Rightarrow> int \<Rightarrow> nat" where
  "slice_index len i = (if i < 0 then nat (max (int len + i) 0) else min (nat i) len)"

definition slice :: "'a list \<Rightarrow> int \<Rightarrow> int \<Rightarrow> 'a list" where
  "slice s start fin =
     (let from = slice_index (length s) start; to = slice_index (length s) fin
      in take (to - from) (drop from s))"

definition slice_from :: "'a list \<Rightarrow> int \<Rightarrow> 'a list" where
  "slice_from s start = drop (slice_index (length s) start) s"

text \<open>The WhiteSpace and LineTerminator code units that \<open>trim\<close> strips.\<close>

definition is_ws :: "code_unit \<Rightarrow> bool" where
  "is_ws c \<longleftrightarrow>
     c = 0x09 \<or> c = 0x0A \<or> c = 0x0B \<or> c = 0x0C \<or> c = 0x0D \<or> c = 0x20 \<or> c = 0xA0
     \<or> c = 0x1680 \<or> (0x2000 \<le> c \<and> c \<le> 0x200A) \<or> c = 0x2028 \<or> c = 0x2029
     \<or> c = 0x202F \<or> c = 0x205F \<or> c = 0x3000 \<or> c = 0xFEFF"

definition trim :: "jsstring \<Rightarrow> jsstring" where
  "trim s = rev (dropWhile is_ws (rev (dropWhile is_ws s)))"

subsection \<open>Buffer.toString()\<close>

text \<open>
  \<open>data.toString()\<close> decodes the bytes of one Buffer as UTF-8 (the default encoding),
  on its own: an ill-formed or truncated sequence becomes U+FFFD, and a code point above
  U+FFFF becomes a surrogate pair. The decoder is the byte-at-a-time machine of the
  Encoding standard: the code point under construction, the continuation bytes seen and
  needed, and the range allowed for the next continuation byte.
\<close>

record utf8_state =
  cp :: nat
  seen :: nat
  needed :: nat
  lower :: nat
  upper :: nat

definition utf8_init :: utf8_state where
  "utf8_init = \<lparr>cp = 0, seen = 0, needed = 0, lower = 0x80, upper = 0xBF\<rparr>"

definition code_units :: "nat \<Rightarrow> jsstring" where
  "code_units c =
     (if c < 0x10000 then [of_nat c]
      else [of_nat (0xD800 + (c - 0x10000) div 0x400), of_nat (0xDC00 + (c - 0x10000) mod 0x400)])"

definition utf8_lead :: "byte \<Rightarrow> jsstring \<times> utf8_state" where
  "utf8_lead b =
     (let v = unat b in
      if v \<le> 0x7F then ([of_nat v], utf8_init)
      else if 0xC2 \<le> v \<and> v \<le> 0xDF then
        ([], utf8_init\<lparr>needed := 1, cp := v mod 0x20\<rparr>)
      else if 0xE0 \<le> v \<and> v \<le> 0xEF then
        ([], utf8_init\<lparr>needed := 2, cp := v mod 0x10,
                        lower := (if v = 0xE0 then 0xA0 else 0x80),
                        upper := (if v = 0xED then 0x9F else 0xBF)\<rparr>)
      else if 0xF0 \<le> v \<and> v \<le> 0xF4 then
        ([], utf8_init\<lparr>needed := 3, cp := v mod 0x08,
                        lower := (if v = 0xF0 then 0x90 else 0x80),
                        upper := (if v = 0xF4 then 0x8F else 0xBF)\<rparr>)
      else ([0xFFFD], utf8_init))"

fun utf8_decode :: "utf8_state \<Rightarrow> byte list \<Rightarrow> jsstring" where
  "utf8_decode st [] = (if needed st \<noteq> 0 then [0xFFFD] else [])"
| "utf8_decode st (b # bs) =
     (if needed st = 0 then fst (utf8_lead b) @ utf8_decode (snd (utf8_lead b)) bs
      else if unat b < lower st \<or> upper st < unat b then
        0xFFFD # fst (utf8_lead b) @ utf8_decode (snd (utf8_lead b)) bs
      else if seen st + 1 \<noteq> needed st then
        utf8_decode (st\<lparr>lower := 0x80, upper := 0xBF,
                        cp := cp st * 0x40 + unat b mod 0x40, seen := seen st + 1\<rparr>) bs
      else code_units (cp st * 0x40 + unat b mod 0x40) @ utf8_decode utf8_init bs)"

definition toString :: "byte list \<Rightarrow> jsstring" where
  "toString data = utf8_decode utf8_init data"

section \<open>The transport and its child processes\<close>

text \<open>
  \<open>StdioTransportConfig\<close> has optional fields; the constructor resolves them once, with
  \<open>??\<close> supplying the defaults. \<open>cwd\<close> and \<open>env\<close> are passed to \<open>spawn\<close> unchanged and are
  left out.
\<close>

record StdioTransportConfig =
  cfg_command :: string
  cfg_args :: "string list option"
  cfg_connectionTimeout :: "int option"
  cfg_debug :: "bool option"

record config =
  command :: string
  args :: "string list"
  connectionTimeout :: int
  debug :: bool

definition resolve_config :: "StdioTransportConfig \<Rightarrow> config" where
  "resolve_config c =
     \<lparr>command = cfg_command c,
      args = (case cfg_args c of None \<Rightarrow> [] | Some a \<Rightarrow> a),
      connectionTimeout = (case cfg_connectionTimeout c of None \<Rightarrow> 10000 | Some n \<Rightarrow> n),
      debug = (case cfg_debug c of None \<Rightarrow> False | Some d \<Rightarrow> d)\<rparr>"

datatype signal = SIGTERM | SIGKILL | SIGINT | SIGHUP

text \<open>
  What the platform answers to a call the transport makes. \<open>childProcess.kill\<close>: the
  signal is delivered (\<open>kill\<close> sets \<open>killed\<close> and returns true), or it is not (no such
  process: the spawn failed or the child is gone; \<open>killed\<close> stays as it is). The case of
  the operating system refusing the signal, where \<open>kill\<close> emits \<open>error\<close> on the child, is
  left out. \<open>stdin.write\<close>: the string is accepted, or the call throws, or the call
  returns and the write fails afterwards (a closed pipe), which Node reports as an
  \<open>error\<close> event of \<open>childProcess.stdin\<close>.
\<close>

datatype kill_result = Delivered | NotDelivered

text \<open>
  The Error objects of the transport, one constructor for each message it builds;
  \<open>PlatformError\<close> is an error object that Node hands to the transport (a spawn failure,
  a failed write).
\<close>

datatype error =
    NotConnected
  | ConnectionTimeout int
  | ExitedImmediately int
  | ExitedDuringConnection "int option" "signal option"
  | PlatformError string

datatype write_result = Written | WriteThrows error | WriteFailsLater error

datatype outcome = Resolved | Rejected error

datatype notification = Message jsstring | Log jsstring | ErrorEvent error | Close

text \<open>
  One record for each \<open>connect()\<close> call that reached \<open>new Promise\<close>: the ChildProcess it
  spawned (\<open>killed\<close>, \<open>exitCode\<close>, \<open>signalCode\<close>, the signals passed to \<open>kill\<close>, the
  strings written to \<open>stdin\<close>) and the variables of its closure (\<open>connectionDelay\<close> and
  \<open>timeout\<close>: the timer is pending; \<open>settled\<close>; \<open>promise\<close>: the calls of \<open>resolve\<close> and
  \<open>reject\<close>, in order). \<open>spawned\<close> says that \<open>spawn\<close> returned and the handlers were
  registered. \<open>process\<close> of the transport is the index of a call: \<open>this.process ===
  childProcess\<close> compares indices. The transport is an EventEmitter: \<open>error_listeners\<close>
  counts the listeners registered for \<open>error\<close>, \<open>emitted\<close> lists the notifications handed
  to listeners. \<open>uncaught\<close> lists the exceptions that left a handler and reached the
  event loop.
\<close>

record call =
  spawned :: bool
  killed :: bool
  exitCode :: "int option"
  signalCode :: "signal option"
  signals :: "signal list"
  stdin :: "jsstring list"
  connectionDelay :: bool
  timeout :: bool
  settled :: bool
  promise :: "outcome list"

record transport =
  process :: "nat option"
  buffer :: jsstring
  connected :: bool
  emitted :: "notification list"
  calls :: "call list"
  error_listeners :: nat
  uncaught :: "error list"

definition new_call :: call where
  "new_call =
     \<lparr>spawned = False, killed = False, exitCode = None, signalCode = None, signals = [],
      stdin = [], connectionDelay = False, timeout = False, settled = False, promise = []\<rparr>"

definition new_transport :: transport where
  "new_transport =
     \<lparr>process = None, buffer = [], connected = False, emitted = [], calls = [],
      error_listeners = 0, uncaught = []\<rparr>"

text \<open>
  \<open>this.emit(name, payload)\<close> hands a notification to the listeners of the transport; the
  model records it in \<open>emitted\<close>. \<open>emit\<close> is the call for \<open>message\<close>, \<open>log\<close> and \<open>close\<close>,
  which never throws. \<open>emit_error\<close> is \<open>this.emit('error', e)\<close>: with no listener for
  \<open>error\<close> an EventEmitter throws \<open>e\<close> instead. Listeners are taken not to throw.
  \<open>this.log\<close> writes to the console when \<open>debug\<close> is set and changes nothing: it is left
  out.
\<close>

definition emit :: "notification \<Rightarrow> transport \<Rightarrow> transport" where
  "emit n t = t\<lparr>emitted := emitted t @ [n]\<rparr>"

definition emit_error :: "error \<Rightarrow> transport \<Rightarrow> error + transport" where
  "emit_error e t = (if error_listeners t = 0 then Inl e else Inr (emit (ErrorEvent e) t))"

definition upd_call :: "nat \<Rightarrow> (call \<Rightarrow> call) \<Rightarrow> transport \<Rightarrow> transport" where
  "upd_call i f t = t\<lparr>calls := (calls t)[i := f (calls t ! i)]\<rparr>"

text \<open>
  \<open>childProcess.kill(signal)\<close>: \<open>signals\<close> records the call, and \<open>killed\<close> is set when the
  platform delivered the signal.
\<close>

definition kill :: "signal \<Rightarrow> kill_result \<Rightarrow> call \<Rightarrow> call" where
  "kill sig r c = c\<lparr>signals := signals c @ [sig], killed := (killed c \<or> r = Delivered)\<rparr>"

text \<open>
  \<open>childProcess.stdin.write(s)\<close>: \<open>stdin\<close> records the strings the stream accepted. A
  write that fails afterwards returns like a good one and leaves nothing on the stream.
\<close>

definition stdin_write :: "jsstring \<Rightarrow> write_result \<Rightarrow> call \<Rightarrow> error + call" where
  "stdin_write s w c =
     (case w of
        Written \<Rightarrow> Inr (c\<lparr>stdin := stdin c @ [s]\<rparr>)
      | WriteThrows e \<Rightarrow> Inl e
      | WriteFailsLater e \<Rightarrow> Inr c)"

subsection \<open>handleData, cleanup, disconnect, send, isConnected\<close>

function handleData_loop :: "transport \<Rightarrow> transport" where
  "handleData_loop t =
     (if indexOf (buffer t) nl \<noteq> -1 then
        handleData_loop
          (if length (trim (slice (buffer t) 0 (indexOf (buffer t) nl))) > 0
           then emit (Message (trim (slice (buffer t) 0 (indexOf (buffer t) nl))))
                  (t\<lparr>buffer := slice_from (buffer t) (indexOf (buffer t) nl + 1)\<rparr>)
           else t\<lparr>buffer := slice_from (buffer t) (indexOf (buffer t) nl + 1)\<rparr>)
      else t)"
  by pat_completeness auto

lemma indexOf_ge: "- 1 \<le> indexOf s c"
  by (induction s) auto

lemma indexOf_less: "indexOf s c < int (length s)"
  by (induction s) auto

lemma indexOf_absent: "indexOf s c = - 1 \<longleftrightarrow> c \<notin> set s"
proof (induction s)
  case Nil
  show ?case by simp
next
  case (Cons x xs)
  have "- 1 \<le> indexOf xs c" by (rule indexOf_ge)
  with Cons show ?case by auto
qed

lemma indexOf_split:
  assumes "indexOf s c \<noteq> - 1"
  shows "s = take (nat (indexOf s c)) s @ c # drop (nat (indexOf s c) + 1) s
         \<and> c \<notin> set (take (nat (indexOf s c)) s)"
  using assms
proof (induction s)
  case Nil
  then show ?case by simp
next
  case (Cons x xs)
  show ?case
  proof (cases "x = c")
    case True
    then show ?thesis by simp
  next
    case False
    with Cons.prems have ne: "indexOf xs c \<noteq> - 1" by (simp split: if_splits)
    have ge: "0 \<le> indexOf xs c" using indexOf_ge [of xs c] ne by linarith
    have n: "nat (indexOf xs c + 1) = Suc (nat (indexOf xs c))" using ge by simp
    from Cons.IH [OF ne] False ne n show ?thesis by simp
  qed
qed

lemma slice_prefix:
  "0 \<le> i \<Longrightarrow> i \<le> int (length s) \<Longrightarrow> slice s 0 i = take (nat i) s"
proof -
  assume "0 \<le> i" and "i \<le> int (length s)"
  then have "nat i \<le> length s" and "\<not> i < 0" by linarith+
  then show ?thesis by (simp add: slice_def slice_index_def min_def)
qed

lemma slice_from_drop: "0 \<le> i \<Longrightarrow> slice_from s i = drop (nat i) s"
  by (simp add: slice_from_def slice_index_def min_def)

lemma slice_from_shorter:
  assumes "indexOf s c \<noteq> - 1"
  shows "length (slice_from s (indexOf s c + 1)) < length s"
proof -
  have "0 \<le> indexOf s c" using indexOf_ge [of s c] assms by linarith
  moreover have "indexOf s c < int (length s)" by (rule indexOf_less)
  ultimately show ?thesis by (simp add: slice_from_drop)
qed

termination handleData_loop
proof (relation "measure (\<lambda>t. length (buffer t))")
  show "wf (measure (\<lambda>t. length (buffer t)))" by simp
next
  fix t :: transport
  assume "indexOf (buffer t) nl \<noteq> - 1"
  then have "length (slice_from (buffer t) (indexOf (buffer t) nl + 1)) < length (buffer t)"
    by (rule slice_from_shorter)
  then show "(if 0 < length (trim (slice (buffer t) 0 (indexOf (buffer t) nl)))
         then emit (Message (trim (slice (buffer t) 0 (indexOf (buffer t) nl))))
                (t\<lparr>buffer := slice_from (buffer t) (indexOf (buffer t) nl + 1)\<rparr>)
         else t\<lparr>buffer := slice_from (buffer t) (indexOf (buffer t) nl + 1)\<rparr>, t)
        \<in> measure (\<lambda>t. length (buffer t))"
    by (simp add: emit_def)
qed

declare handleData_loop.simps [simp del]

definition handleData :: "byte list \<Rightarrow> transport \<Rightarrow> transport" where
  "handleData data t = handleData_loop (t\<lparr>buffer := buffer t @ toString data\<rparr>)"

definition cleanup :: "kill_result \<Rightarrow> transport \<Rightarrow> transport" where
  "cleanup r t =
     (case process t of
        Some j \<Rightarrow> (upd_call j (kill SIGTERM r) t)\<lparr>process := None\<rparr>
      | None \<Rightarrow> t)
     \<lparr>connected := False, buffer := []\<rparr>"

definition disconnect :: "kill_result \<Rightarrow> transport \<Rightarrow> transport" where
  "disconnect r t = (if process t = None then t else cleanup r t)"

text \<open>
  \<open>send\<close> returns \<open>Inl e\<close> when the exception \<open>e\<close> leaves the call, \<open>Inr\<close> of the new state
  when it returns. The first \<open>emit\<close> is outside the \<open>try\<close>; the \<open>catch\<close> sees what \<open>write\<close>
  throws and emits it.
\<close>

definition send :: "jsstring \<Rightarrow> write_result \<Rightarrow> transport \<Rightarrow> error + transport" where
  "send message w t =
     (case process t of
        None \<Rightarrow> emit_error NotConnected t
      | Some j \<Rightarrow>
          if \<not> connected t then emit_error NotConnected t
          else (case stdin_write (message @ [nl]) w (calls t ! j) of
                  Inr c \<Rightarrow> Inr (t\<lparr>calls := (calls t)[j := c]\<rparr>)
                | Inl e \<Rightarrow> emit_error e t))"

definition isConnected :: "transport \<Rightarrow> bool" where
  "isConnected t \<longleftrightarrow>
     connected t \<and>
     (case process t of
        None \<Rightarrow> False
      | Some j \<Rightarrow> exitCode (calls t ! j) = None \<and> \<not> killed (calls t ! j))"

subsection \<open>connect and the handlers it registers\<close>

definition resolveOnce :: "nat \<Rightarrow> transport \<Rightarrow> transport" where
  "resolveOnce i t =
     (if settled (calls t ! i) then t
      else (upd_call i (\<lambda>c. c\<lparr>settled := True, promise := promise c @ [Resolved]\<rparr>) t)
             \<lparr>connected := True\<rparr>)"

definition rejectOnce :: "nat \<Rightarrow> error \<Rightarrow> transport \<Rightarrow> transport" where
  "rejectOnce i e t =
     (if settled (calls t ! i) then t
      else (upd_call i (\<lambda>c. c\<lparr>settled := True, promise := promise c @ [Rejected e]\<rparr>) t)
             \<lparr>connected := False\<rparr>)"

definition clear_connectionDelay :: "nat \<Rightarrow> transport \<Rightarrow> transport" where
  "clear_connectionDelay i t = upd_call i (\<lambda>c. c\<lparr>connectionDelay := False\<rparr>) t"

definition clear_timeout :: "nat \<Rightarrow> transport \<Rightarrow> transport" where
  "clear_timeout i t = upd_call i (\<lambda>c. c\<lparr>timeout := False\<rparr>) t"

text \<open>
  \<open>connect()\<close>; \<open>Some e\<close>: \<open>spawn\<close> throws \<open>e\<close>, and the \<open>catch\<close> rejects (the timers are
  still undefined). When the transport is connected the call returns at once, without
  a closure. Otherwise the child is spawned, \<open>this.process\<close> set to it, both timers
  armed and the handlers registered.
\<close>

definition connect :: "error option \<Rightarrow> transport \<Rightarrow> transport" where
  "connect thrown t =
     (if connected t then t
      else (case thrown of
              Some e \<Rightarrow> rejectOnce (length (calls t)) e (t\<lparr>calls := calls t @ [new_call]\<rparr>)
            | None \<Rightarrow>
                t\<lparr>process := Some (length (calls t)),
                  calls := calls t @
                    [new_call\<lparr>spawned := True, connectionDelay := True, timeout := True\<rparr>]\<rparr>))"

definition on_connectionDelay :: "nat \<Rightarrow> transport \<Rightarrow> transport" where
  "on_connectionDelay i t =
     (if \<not> connected t \<and> process t = Some i \<and> \<not> killed (calls t ! i)
         \<and> exitCode (calls t ! i) = None
      then resolveOnce i t
      else if exitCode (calls t ! i) \<noteq> None \<and> \<not> settled (calls t ! i)
      then rejectOnce i (ExitedImmediately (the (exitCode (calls t ! i)))) t
      else t)"

definition on_timeout :: "config \<Rightarrow> kill_result \<Rightarrow> nat \<Rightarrow> transport \<Rightarrow> transport" where
  "on_timeout cfg r i t =
     rejectOnce i (ConnectionTimeout (connectionTimeout cfg))
       (cleanup r (clear_connectionDelay i t))"

definition on_stdout_data :: "nat \<Rightarrow> byte list \<Rightarrow> transport \<Rightarrow> transport" where
  "on_stdout_data i data t = handleData data (clear_connectionDelay i (clear_timeout i t))"

definition on_stderr_data :: "byte list \<Rightarrow> transport \<Rightarrow> transport" where
  "on_stderr_data data t =
     (if trim (toString data) \<noteq> [] then emit (Log (trim (toString data))) t else t)"

text \<open>
  The \<open>error\<close> handler of the child. When its \<open>emit\<close> throws, the rest of the handler is
  skipped and the exception reaches the event loop.
\<close>

definition on_error :: "nat \<Rightarrow> error \<Rightarrow> transport \<Rightarrow> transport" where
  "on_error i e t =
     (let t1 = clear_connectionDelay i (clear_timeout i t)
      in if settled (calls t1 ! i) \<and> connected t1
         then (case emit_error e t1 of
                 Inr t2 \<Rightarrow> rejectOnce i e t2
               | Inl x \<Rightarrow> t1\<lparr>uncaught := uncaught t1 @ [x]\<rparr>)
         else rejectOnce i e t1)"

definition on_close :: "nat \<Rightarrow> int option \<Rightarrow> signal option \<Rightarrow> transport \<Rightarrow> transport" where
  "on_close i code sig t =
     (let t1 = clear_connectionDelay i (clear_timeout i t)
      in if \<not> settled (calls t1 ! i) then rejectOnce i (ExitedDuringConnection code sig) t1
         else emit Close (t1\<lparr>connected := False\<rparr>))"

definition on_exit :: "nat \<Rightarrow> transport \<Rightarrow> transport" where
  "on_exit i t = (clear_connectionDelay i t)\<lparr>connected := False\<rparr>"

subsection \<open>The event loop\<close>

text \<open>
  Handlers run one at a time. An event is a call of the public interface (\<open>OnError\<close>: the
  caller registers a listener for \<open>error\<close>), a timer of call \<open>i\<close> firing, or an event of
  the child of call \<open>i\<close>; \<open>ChildExited\<close> is Node recording the exit status in \<open>exitCode\<close>
  and \<open>signalCode\<close>, which it does before it emits \<open>exit\<close>. \<open>StdinError\<close> is an \<open>error\<close>
  event of \<open>childProcess.stdin\<close>, for which the transport registers no handler: it reaches
  the event loop as an uncaught exception. Events that run \<open>kill\<close> or \<open>write\<close> carry the
  platform's answer. A timer fires only while it is pending, and only once; the child of
  a call that never spawned has no events. An exception that leaves \<open>send\<close> goes to the
  caller and leaves the transport as it was.
\<close>

datatype event =
    Connect "error option"
  | Disconnect kill_result
  | Send jsstring write_result
  | OnError
  | GraceTimer nat
  | TimeoutTimer nat kill_result
  | StdinError nat error
  | StdoutData nat "byte list"
  | StderrData nat "byte list"
  | ProcessError nat error
  | ProcessClose nat "int option" "signal option"
  | ProcessExit nat "int option" "signal option"
  | ChildExited nat "int option" "signal option"

definition live :: "nat \<Rightarrow> transport \<Rightarrow> bool" where
  "live i t \<longleftrightarrow> i < length (calls t) \<and> spawned (calls t ! i)"

fun step :: "config \<Rightarrow> event \<Rightarrow> transport \<Rightarrow> transport" where
  "step cfg (Connect thrown) t = connect thrown t"
| "step cfg (Disconnect r) t = disconnect r t"
| "step cfg (Send message w) t = (case send message w t of Inr t' \<Rightarrow> t' | Inl e \<Rightarrow> t)"
| "step cfg OnError t = t\<lparr>error_listeners := error_listeners t + 1\<rparr>"
| "step cfg (GraceTimer i) t =
     (if live i t \<and> connectionDelay (calls t ! i)
      then on_connectionDelay i (clear_connectionDelay i t) else t)"
| "step cfg (TimeoutTimer i r) t =
     (if live i t \<and> timeout (calls t ! i)
      then on_timeout cfg r i (clear_timeout i t) else t)"
| "step cfg (StdinError i e) t = (if live i t then t\<lparr>uncaught := uncaught t @ [e]\<rparr> else t)"
| "step cfg (StdoutData i data) t = (if live i t then on_stdout_data i data t else t)"
| "step cfg (StderrData i data) t = (if live i t then on_stderr_data data t else t)"
| "step cfg (ProcessError i e) t = (if live i t then on_error i e t else t)"
| "step cfg (ProcessClose i code sig) t = (if live i t then on_close i code sig t else t)"
| "step cfg (ProcessExit i code sig) t = (if live i t then on_exit i t else t)"
| "step cfg (ChildExited i code sig) t =
     (if live i t then upd_call i (\<lambda>c. c\<lparr>exitCode := code, signalCode := sig\<rparr>) t else t)"

fun run :: "config \<Rightarrow> event list \<Rightarrow> transport \<Rightarrow> transport" where
  "run cfg [] t = t"
| "run cfg (e # es) t = run cfg es (step cfg e t)"

text \<open>Feeding the chunks of a stdout stream to the Line Framer, one by one.\<close>

fun feed :: "byte list list \<Rightarrow> transport \<Rightarrow> transport" where
  "feed [] t = t"
| "feed (d # ds) t = feed ds (handleData d t)"

section \<open>Specification vocabulary\<close>

text \<open>
  The words of the specification, defined on their own and compared with the code
  below. \<open>split_acc cur s\<close> reads \<open>s\<close> once, \<open>cur\<close> being the line under construction:
  \<open>complete_lines\<close> are the newline-terminated lines of a text, without their newline,
  \<open>partial_tail\<close> is what follows the last newline, and \<open>frames\<close> are the complete lines,
  trimmed, that are not empty.
\<close>

fun split_acc :: "jsstring \<Rightarrow> jsstring \<Rightarrow> jsstring list \<times> jsstring" where
  "split_acc cur [] = ([], cur)"
| "split_acc cur (c # cs) =
     (if c = nl then (cur # fst (split_acc [] cs), snd (split_acc [] cs))
      else split_acc (cur @ [c]) cs)"

definition complete_lines :: "jsstring \<Rightarrow> jsstring list" where
  "complete_lines s = fst (split_acc [] s)"

definition partial_tail :: "jsstring \<Rightarrow> jsstring" where
  "partial_tail s = snd (split_acc [] s)"

definition frames :: "jsstring \<Rightarrow> jsstring list" where
  "frames s = filter (\<lambda>l. l \<noteq> []) (map trim (complete_lines s))"

text \<open>
  A call is well settled when \<open>resolve\<close> or \<open>reject\<close> has been called at most once, and
  exactly when \<open>settled\<close> is set. \<open>settle_step\<close> relates a call before and after a handler:
  the outcome is untouched, or the call was unsettled and has now settled with one
  outcome. \<open>evolves\<close> lifts this to the transport, whose list of calls only grows.
\<close>

definition call_ok :: "call \<Rightarrow> bool" where
  "call_ok c \<longleftrightarrow> (settled c \<longleftrightarrow> promise c \<noteq> []) \<and> length (promise c) \<le> 1"

definition settle_step :: "call \<Rightarrow> call \<Rightarrow> bool" where
  "settle_step c c' \<longleftrightarrow>
     (settled c' = settled c \<and> promise c' = promise c)
     \<or> (\<not> settled c \<and> settled c' \<and> (\<exists>r. promise c' = promise c @ [r]))"

definition evolves :: "transport \<Rightarrow> transport \<Rightarrow> bool" where
  "evolves t t' \<longleftrightarrow>
     length (calls t) \<le> length (calls t')
     \<and> (\<forall>k < length (calls t). settle_step (calls t ! k) (calls t' ! k))
     \<and> (\<forall>k < length (calls t'). \<not> k < length (calls t) \<longrightarrow> call_ok (calls t' ! k))"

definition test_config :: config where
  "test_config =
     resolve_config \<lparr>cfg_command = ''node'', cfg_args = None, cfg_connectionTimeout = Some 50,
                     cfg_debug = None\<rparr>"

section \<open>The Line Framer\<close>

lemma split_acc_no_nl: "nl \<notin> set s \<Longrightarrow> split_acc cur s = ([], cur @ s)"
  by (induction s arbitrary: cur) auto

lemma split_acc_first:
  "nl \<notin> set pre \<Longrightarrow>
   split_acc cur (pre @ nl # post) = ((cur @ pre) # fst (split_acc [] post), snd (split_acc [] post))"
  by (induction pre arbitrary: cur) auto

lemma split_acc_decomp:
  "cur @ s = concat (map (\<lambda>l. l @ [nl]) (fst (split_acc cur s))) @ snd (split_acc cur s)"
proof (induction s arbitrary: cur)
  case Nil
  show ?case by simp
next
  case (Cons c cs)
  show ?case
  proof (cases "c = nl")
    case True
    with Cons [of "[]"] show ?thesis by simp
  next
    case False
    with Cons [of "cur @ [c]"] show ?thesis by simp
  qed
qed

lemma split_acc_tail_no_nl: "nl \<notin> set cur \<Longrightarrow> nl \<notin> set (snd (split_acc cur s))"
  by (induction s arbitrary: cur) auto

lemma split_acc_lines_no_nl:
  "nl \<notin> set cur \<Longrightarrow> l \<in> set (fst (split_acc cur s)) \<Longrightarrow> nl \<notin> set l"
proof (induction s arbitrary: cur)
  case Nil
  then show ?case by simp
next
  case (Cons c cs)
  show ?case
  proof (cases "c = nl")
    case True
    with Cons.prems have "l = cur \<or> l \<in> set (fst (split_acc [] cs))" by simp
    then show ?thesis
    proof
      assume "l = cur"
      with Cons.prems show ?thesis by simp
    next
      assume "l \<in> set (fst (split_acc [] cs))"
      with Cons.IH [of "[]"] show ?thesis by simp
    qed
  next
    case False
    with Cons.prems have "l \<in> set (fst (split_acc (cur @ [c]) cs))" by simp
    moreover have "nl \<notin> set (cur @ [c])" using Cons.prems False by auto
    ultimately show ?thesis by (rule Cons.IH [rotated])
  qed
qed

lemma split_acc_append:
  "split_acc cur (a @ b) =
     (fst (split_acc cur a) @ fst (split_acc (snd (split_acc cur a)) b),
      snd (split_acc (snd (split_acc cur a)) b))"
  by (induction a arbitrary: cur) auto

lemma split_acc_cur:
  "split_acc cur s = split_acc [] (cur @ s)" if "nl \<notin> set cur"
  using that split_acc_append [of "[]" cur s] by (simp add: split_acc_no_nl)

lemma complete_lines_append:
  "complete_lines (a @ b) = complete_lines a @ complete_lines (partial_tail a @ b)"
proof -
  have "nl \<notin> set (partial_tail a)" by (simp add: partial_tail_def split_acc_tail_no_nl)
  then have "split_acc (partial_tail a) b = split_acc [] (partial_tail a @ b)" by (rule split_acc_cur)
  then show ?thesis
    by (simp add: complete_lines_def partial_tail_def split_acc_append [of "[]" a b])
qed

lemma partial_tail_append:
  "partial_tail (a @ b) = partial_tail (partial_tail a @ b)"
proof -
  have "nl \<notin> set (partial_tail a)" by (simp add: partial_tail_def split_acc_tail_no_nl)
  then have "split_acc (partial_tail a) b = split_acc [] (partial_tail a @ b)" by (rule split_acc_cur)
  then show ?thesis
    by (simp add: complete_lines_def partial_tail_def split_acc_append [of "[]" a b])
qed

lemma handleData_loop_eq:
  "handleData_loop t =
     t\<lparr>buffer := partial_tail (buffer t),
       emitted := emitted t @ map Message (frames (buffer t))\<rparr>"
proof (induction t rule: handleData_loop.induct)
  case (1 t)
  show ?case
  proof (cases "indexOf (buffer t) nl = - 1")
    case True
    then have "nl \<notin> set (buffer t)" by (simp add: indexOf_absent)
    then have "split_acc [] (buffer t) = ([], buffer t)" by (simp add: split_acc_no_nl)
    with True show ?thesis
      by (subst handleData_loop.simps) (simp add: partial_tail_def frames_def complete_lines_def)
  next
    case False
    define n where "n = nat (indexOf (buffer t) nl)"
    define pre where "pre = take n (buffer t)"
    define post where "post = drop (n + 1) (buffer t)"
    from indexOf_split [OF False]
    have dec: "buffer t = pre @ nl # post" and nonl: "nl \<notin> set pre"
      by (simp_all add: pre_def post_def n_def)
    have ge: "0 \<le> indexOf (buffer t) nl" using indexOf_ge [of "buffer t" nl] False by linarith
    have le: "indexOf (buffer t) nl \<le> int (length (buffer t))"
      using indexOf_less [of "buffer t" nl] by linarith
    have sl: "slice (buffer t) 0 (indexOf (buffer t) nl) = pre"
      using slice_prefix [OF ge le] by (simp add: pre_def n_def)
    have sf: "slice_from (buffer t) (indexOf (buffer t) nl + 1) = post"
      using ge by (simp add: slice_from_drop post_def n_def nat_add_distrib)
    have sp: "split_acc [] (buffer t) = (pre # fst (split_acc [] post), snd (split_acc [] post))"
      using split_acc_first [OF nonl, of "[]" post] dec by simp
    show ?thesis
      using False "1.IH" [OF False] sp
      by (subst handleData_loop.simps)
         (simp add: sl sf partial_tail_def frames_def complete_lines_def emit_def)
  qed
qed

lemma handleData_eq:
  "handleData data t =
     t\<lparr>buffer := partial_tail (buffer t @ toString data),
       emitted := emitted t @ map Message (frames (buffer t @ toString data))\<rparr>"
  by (simp add: handleData_def handleData_loop_eq)

section \<open>Settlement of connect\<close>

lemma settle_step_refl: "settle_step c c"
  by (simp add: settle_step_def)

lemma settle_step_trans: "settle_step a b \<Longrightarrow> settle_step b c \<Longrightarrow> settle_step a c"
  by (auto simp: settle_step_def)

lemma settle_step_ok: "call_ok c \<Longrightarrow> settle_step c c' \<Longrightarrow> call_ok c'"
  by (auto simp: settle_step_def call_ok_def)

lemma evolves_refl: "evolves t t"
  by (simp add: evolves_def settle_step_refl)

lemma evolves_trans:
  assumes "evolves a b" and "evolves b c"
  shows "evolves a c"
  unfolding evolves_def
proof (intro conjI allI impI)
  show "length (calls a) \<le> length (calls c)"
    using assms by (simp add: evolves_def)
next
  fix k assume k: "k < length (calls a)"
  then have "settle_step (calls a ! k) (calls b ! k)" using assms(1) by (simp add: evolves_def)
  moreover have "k < length (calls b)" using k assms(1) by (simp add: evolves_def)
  then have "settle_step (calls b ! k) (calls c ! k)" using assms(2) by (simp add: evolves_def)
  ultimately show "settle_step (calls a ! k) (calls c ! k)" by (rule settle_step_trans)
next
  fix k assume k: "k < length (calls c)" "\<not> k < length (calls a)"
  show "call_ok (calls c ! k)"
  proof (cases "k < length (calls b)")
    case True
    then have "call_ok (calls b ! k)" using k assms(1) by (simp add: evolves_def)
    moreover have "settle_step (calls b ! k) (calls c ! k)"
      using True assms(2) by (simp add: evolves_def)
    ultimately show ?thesis by (rule settle_step_ok)
  next
    case False
    then show ?thesis using k assms(2) by (simp add: evolves_def)
  qed
qed

lemma evolves_same_calls: "calls t' = calls t \<Longrightarrow> evolves t t'"
  by (simp add: evolves_def settle_step_refl)

lemma evolves_same_length:
  assumes "length (calls t') = length (calls t)"
    and "\<And>k. k < length (calls t) \<Longrightarrow> settle_step (calls t ! k) (calls t' ! k)"
  shows "evolves t t'"
  using assms by (simp add: evolves_def)

lemma evolves_upd_call:
  assumes "\<And>c. settled (f c) = settled c \<and> promise (f c) = promise c"
  shows "evolves t (upd_call i f t)"
proof (rule evolves_same_length)
  show "length (calls (upd_call i f t)) = length (calls t)" by (simp add: upd_call_def)
next
  fix k assume "k < length (calls t)"
  then show "settle_step (calls t ! k) (calls (upd_call i f t) ! k)"
    using assms by (cases "k = i") (simp_all add: upd_call_def settle_step_def)
qed

lemma evolves_resolveOnce: "evolves t (resolveOnce i t)"
proof (rule evolves_same_length)
  show "length (calls (resolveOnce i t)) = length (calls t)"
    by (simp add: resolveOnce_def upd_call_def)
next
  fix k assume "k < length (calls t)"
  then show "settle_step (calls t ! k) (calls (resolveOnce i t) ! k)"
    by (cases "k = i") (simp_all add: resolveOnce_def upd_call_def settle_step_def)
qed

lemma evolves_rejectOnce: "evolves t (rejectOnce i e t)"
proof (rule evolves_same_length)
  show "length (calls (rejectOnce i e t)) = length (calls t)"
    by (simp add: rejectOnce_def upd_call_def)
next
  fix k assume "k < length (calls t)"
  then show "settle_step (calls t ! k) (calls (rejectOnce i e t) ! k)"
    by (cases "k = i") (simp_all add: rejectOnce_def upd_call_def settle_step_def)
qed

lemma evolves_clear_connectionDelay: "evolves t (clear_connectionDelay i t)"
  by (simp add: clear_connectionDelay_def evolves_upd_call)

lemma evolves_clear_timeout: "evolves t (clear_timeout i t)"
  by (simp add: clear_timeout_def evolves_upd_call)

lemma evolves_handleData: "evolves t (handleData data t)"
  by (rule evolves_same_calls) (simp add: handleData_eq)

lemma evolves_emit: "evolves t (emit n t)"
  by (rule evolves_same_calls) (simp add: emit_def)

lemma evolves_cleanup: "evolves t (cleanup r t)"
proof (cases "process t")
  case None
  then show ?thesis by (simp add: cleanup_def evolves_same_calls)
next
  case (Some j)
  have "evolves t (upd_call j (kill SIGTERM r) t)"
    by (rule evolves_upd_call) (simp add: kill_def)
  moreover have "calls (cleanup r t) = calls (upd_call j (kill SIGTERM r) t)"
    using Some by (simp add: cleanup_def)
  ultimately show ?thesis by (simp add: evolves_def)
qed

lemma evolves_connect: "evolves t (connect thrown t)"
proof (cases "connected t")
  case True
  then show ?thesis by (simp add: connect_def evolves_refl)
next
  case False
  show ?thesis
  proof (cases thrown)
    case None
    with False show ?thesis
      by (simp add: connect_def evolves_def nth_append settle_step_refl new_call_def call_ok_def
          less_Suc_eq)
  next
    case (Some e)
    with False show ?thesis
      by (simp add: connect_def rejectOnce_def upd_call_def evolves_def nth_append
          settle_step_refl new_call_def call_ok_def less_Suc_eq)
  qed
qed

lemma evolves_disconnect: "evolves t (disconnect r t)"
  by (simp add: disconnect_def evolves_refl evolves_cleanup)

lemma evolves_emit_error: "emit_error e t = Inr t' \<Longrightarrow> evolves t t'"
  by (auto simp: emit_error_def evolves_emit split: if_splits)

lemma evolves_send: "send message w t = Inr t' \<Longrightarrow> evolves t t'"
proof (cases "process t")
  case None
  assume "send message w t = Inr t'"
  with None show ?thesis by (simp add: send_def evolves_emit_error)
next
  case (Some j)
  assume a: "send message w t = Inr t'"
  have u: "evolves t (upd_call j (\<lambda>c. c\<lparr>stdin := stdin c @ [message @ [nl]]\<rparr>) t)"
    by (rule evolves_upd_call) simp
  have v: "evolves t (t\<lparr>calls := (calls t)[j := calls t ! j]\<rparr>)"
    by (rule evolves_same_calls) simp
  show ?thesis
  proof (cases "connected t")
    case False
    with a Some show ?thesis by (simp add: send_def evolves_emit_error)
  next
    case True
    with a Some u v show ?thesis
      by (cases w) (auto simp: send_def stdin_write_def upd_call_def evolves_emit_error)
  qed
qed

lemma evolves_step_send:
  "evolves t (case send message w t of Inr t' \<Rightarrow> t' | Inl e \<Rightarrow> t)"
  by (cases "send message w t") (simp_all add: evolves_refl evolves_send)

lemma evolves_on_connectionDelay: "evolves t (on_connectionDelay i t)"
  by (simp add: on_connectionDelay_def evolves_refl evolves_resolveOnce evolves_rejectOnce)

lemma evolves_on_timeout: "evolves t (on_timeout cfg r i t)"
  unfolding on_timeout_def
  by (blast intro: evolves_trans evolves_clear_connectionDelay evolves_cleanup evolves_rejectOnce)

lemma evolves_on_stdout_data: "evolves t (on_stdout_data i data t)"
  unfolding on_stdout_data_def
  by (blast intro: evolves_trans evolves_clear_connectionDelay evolves_clear_timeout
      evolves_handleData)

lemma evolves_on_stderr_data: "evolves t (on_stderr_data data t)"
  by (simp add: on_stderr_data_def evolves_refl evolves_emit)

lemma evolves_clear_both: "evolves t (clear_connectionDelay i (clear_timeout i t))"
  by (blast intro: evolves_trans evolves_clear_connectionDelay evolves_clear_timeout)

lemma evolves_on_error: "evolves t (on_error i e t)"
proof -
  let ?t1 = "clear_connectionDelay i (clear_timeout i t)"
  have 1: "evolves t ?t1" by (rule evolves_clear_both)
  have 2: "evolves ?t1 (rejectOnce i e ?t1)" by (rule evolves_rejectOnce)
  show ?thesis
  proof (cases "settled (calls ?t1 ! i) \<and> connected ?t1")
    case False
    then have "on_error i e t = rejectOnce i e ?t1" by (auto simp: on_error_def Let_def)
    with 1 2 show ?thesis by (auto intro: evolves_trans)
  next
    case True
    show ?thesis
    proof (cases "emit_error e ?t1")
      case (Inl x)
      with True have "on_error i e t = ?t1\<lparr>uncaught := uncaught ?t1 @ [x]\<rparr>"
        by (simp add: on_error_def Let_def)
      moreover have "evolves ?t1 (?t1\<lparr>uncaught := uncaught ?t1 @ [x]\<rparr>)"
        by (rule evolves_same_calls) simp
      ultimately show ?thesis using 1 by (auto intro: evolves_trans)
    next
      case (Inr t2)
      with True have "on_error i e t = rejectOnce i e t2" by (simp add: on_error_def Let_def)
      moreover have "evolves ?t1 t2" using Inr by (rule evolves_emit_error)
      moreover have "evolves t2 (rejectOnce i e t2)" by (rule evolves_rejectOnce)
      ultimately show ?thesis using 1 by (auto intro: evolves_trans)
    qed
  qed
qed

lemma evolves_on_close: "evolves t (on_close i code sig t)"
proof -
  let ?t1 = "clear_connectionDelay i (clear_timeout i t)"
  have 1: "evolves t ?t1" by (rule evolves_clear_both)
  have 2: "evolves ?t1 (emit Close (?t1\<lparr>connected := False\<rparr>))"
    by (rule evolves_same_calls) (simp add: emit_def)
  show ?thesis
    unfolding on_close_def Let_def
    by (cases "settled (calls ?t1 ! i)")
       (use 1 2 in \<open>auto intro: evolves_trans evolves_rejectOnce\<close>)
qed

lemma evolves_on_exit: "evolves t (on_exit i t)"
proof -
  have "evolves (clear_connectionDelay i t) (on_exit i t)"
    by (rule evolves_same_calls) (simp add: on_exit_def)
  with evolves_clear_connectionDelay show ?thesis by (rule evolves_trans)
qed

lemma evolves_step: "evolves t (step cfg e t)"
proof (cases e)
  case (GraceTimer i)
  then show ?thesis
    by (auto intro: evolves_refl evolves_trans evolves_clear_connectionDelay
        evolves_on_connectionDelay)
next
  case (TimeoutTimer i r)
  then show ?thesis
    by (auto intro: evolves_refl evolves_trans evolves_clear_timeout evolves_on_timeout)
next
  case (ChildExited i code sig)
  then show ?thesis by (simp add: evolves_refl evolves_upd_call)
next
  case (Send message w)
  then show ?thesis by (simp add: evolves_step_send)
next
  case OnError
  then show ?thesis by (simp add: evolves_same_calls)
next
  case (StdinError i x)
  then show ?thesis by (simp add: evolves_same_calls evolves_refl)
qed (simp_all add: evolves_refl evolves_connect evolves_disconnect
      evolves_on_stdout_data evolves_on_stderr_data evolves_on_error evolves_on_close
      evolves_on_exit)

lemma evolves_run: "evolves t (run cfg es t)"
proof (induction es arbitrary: t)
  case Nil
  show ?case by (simp add: evolves_refl)
next
  case (Cons e es)
  have "evolves t (step cfg e t)" by (rule evolves_step)
  moreover have "evolves (step cfg e t) (run cfg es (step cfg e t))" by (rule Cons.IH)
  ultimately show ?case by (simp add: evolves_trans)
qed

text \<open>
  Whatever events the transport receives from its construction on, each call has had
  \<open>resolve\<close> or \<open>reject\<close> invoked at most once, and has \<open>settled\<close> set exactly when one was
  invoked. And from any state, once a call is settled, no later event invokes \<open>resolve\<close>
  or \<open>reject\<close> for it again.
\<close>

lemma settles_at_most_once:
  "(\<forall>c \<in> set (calls (run cfg es new_transport)).
      length (promise c) \<le> 1 \<and> (settled c \<longleftrightarrow> promise c \<noteq> []))
   \<and> (\<forall>i < length (calls t). settled (calls t ! i) \<longrightarrow>
        settled (calls (run cfg es' t) ! i)
        \<and> promise (calls (run cfg es' t) ! i) = promise (calls t ! i))"
proof (intro conjI ballI allI impI)
  fix c assume "c \<in> set (calls (run cfg es new_transport))"
  then obtain k where k: "k < length (calls (run cfg es new_transport))"
    and c: "c = calls (run cfg es new_transport) ! k"
    by (auto simp: in_set_conv_nth)
  have "evolves new_transport (run cfg es new_transport)" by (rule evolves_run)
  with k have "call_ok (calls (run cfg es new_transport) ! k)"
    by (simp add: evolves_def new_transport_def)
  with c show "length (promise c) \<le> 1" and "settled c \<longleftrightarrow> promise c \<noteq> []"
    by (simp_all add: call_ok_def)
next
  fix i assume i: "i < length (calls t)" and s: "settled (calls t ! i)"
  have "evolves t (run cfg es' t)" by (rule evolves_run)
  with i have "settle_step (calls t ! i) (calls (run cfg es' t) ! i)"
    by (simp add: evolves_def)
  with s show "settled (calls (run cfg es' t) ! i)"
    and "promise (calls (run cfg es' t) ! i) = promise (calls t ! i)"
    by (auto simp: settle_step_def)
qed

section \<open>Evaluation on concrete inputs\<close>

lemmas framer_eval = toString_def utf8_lead_def utf8_init_def code_units_def nl_def trim_def
  is_ws_def slice_def slice_from_def slice_index_def handleData_def handleData_loop.simps emit_def

lemmas machine_eval = new_transport_def new_call_def upd_call_def kill_def stdin_write_def
  cleanup_def disconnect_def send_def emit_error_def isConnected_def resolveOnce_def
  rejectOnce_def
  clear_connectionDelay_def clear_timeout_def connect_def on_connectionDelay_def on_timeout_def
  on_stdout_data_def on_stderr_data_def on_error_def on_close_def on_exit_def live_def
  test_config_def resolve_config_def

text \<open>A connection established by the grace timer.\<close>

lemma grace_state:
  "run test_config [Connect None, GraceTimer 0] new_transport =
     \<lparr>process = Some 0, buffer = [], connected = True, emitted = [],
      calls = [new_call\<lparr>spawned := True, timeout := True, settled := True,
                         promise := [Resolved]\<rparr>],
      error_listeners = 0, uncaught = []\<rparr>"
  by (simp add: machine_eval)

text \<open>The same, after the caller has registered a listener for \<open>error\<close>.\<close>

lemma listening_state:
  "run test_config [OnError, Connect None, GraceTimer 0] new_transport =
     \<lparr>process = Some 0, buffer = [], connected = True, emitted = [],
      calls = [new_call\<lparr>spawned := True, timeout := True, settled := True,
                         promise := [Resolved]\<rparr>],
      error_listeners = 1, uncaught = []\<rparr>"
  by (simp add: machine_eval)

text \<open>
  The stream of the two lines \<open>{"a":1}\<close> and \<open>{"b":2}\<close>, cut after the first two
  characters of the second line: two frames.
\<close>

lemma two_frames_scenario:
  "concat [[0x7B,0x22,0x61,0x22,0x3A,0x31,0x7D,0x0A,0x7B,0x22], [0x62,0x22,0x3A,0x32,0x7D,0x0A]]
     = [0x7B,0x22,0x61,0x22,0x3A,0x31,0x7D,0x0A,0x7B,0x22,0x62,0x22,0x3A,0x32,0x7D,0x0A :: byte]
   \<and> emitted (feed [[0x7B,0x22,0x61,0x22,0x3A,0x31,0x7D,0x0A,0x7B,0x22],
                     [0x62,0x22,0x3A,0x32,0x7D,0x0A]] new_transport)
     = [Message [0x7B,0x22,0x61,0x22,0x3A,0x31,0x7D], Message [0x7B,0x22,0x62,0x22,0x3A,0x32,0x7D]]"
  by (simp add: new_transport_def framer_eval)

section \<open>Facts shared by the claims\<close>

lemma split_acc_spec:
  "s = concat (map (\<lambda>l. l @ [nl]) (complete_lines s)) @ partial_tail s
   \<and> (\<forall>l \<in> set (complete_lines s). nl \<notin> set l) \<and> nl \<notin> set (partial_tail s)"
  using split_acc_decomp [of "[]" s] split_acc_lines_no_nl [of "[]" _ s]
    split_acc_tail_no_nl [of "[]" s]
  by (auto simp: complete_lines_def partial_tail_def)

lemma buffer_cleanup: "buffer (cleanup r t) = []"
  by (simp add: cleanup_def split: option.splits)

text \<open>
  Feeding chunks one by one gives what the concatenation of their decoded texts gives:
  the frames depend on the text only, not on where it was cut. For chunks of ASCII bytes
  the decoded texts concatenate to the decoded stream, so the cut points do not matter.
\<close>

lemma frames_append: "frames (a @ b) = frames a @ frames (partial_tail a @ b)"
  unfolding frames_def by (subst complete_lines_append) simp

lemma handleData_twice:
  "handleData b (handleData a t) =
     t\<lparr>buffer := partial_tail (buffer t @ toString a @ toString b),
       emitted := emitted t @ map Message (frames (buffer t @ toString a @ toString b))\<rparr>"
proof -
  have "partial_tail (partial_tail (buffer t @ toString a) @ toString b)
      = partial_tail (buffer t @ toString a @ toString b)"
    using partial_tail_append [of "buffer t @ toString a" "toString b"] by simp
  moreover have "map Message (frames (buffer t @ toString a)) @
        map Message (frames (partial_tail (buffer t @ toString a) @ toString b))
      = map Message (frames (buffer t @ toString a @ toString b))"
    using frames_append [of "buffer t @ toString a" "toString b"] by simp
  ultimately show ?thesis by (simp add: handleData_eq)
qed

lemma feed_eq:
  "feed (d # ds) t =
     t\<lparr>buffer := partial_tail (buffer t @ concat (map toString (d # ds))),
       emitted := emitted t @ map Message (frames (buffer t @ concat (map toString (d # ds))))\<rparr>"
proof (induction ds arbitrary: d t)
  case Nil
  show ?case by (simp add: handleData_eq)
next
  case (Cons d' ds)
  have "feed (d # d' # ds) t = feed (d' # ds) (handleData d t)" by simp
  also have "\<dots> = (handleData d t)
      \<lparr>buffer := partial_tail (buffer (handleData d t) @ concat (map toString (d' # ds))),
        emitted := emitted (handleData d t) @
          map Message (frames (buffer (handleData d t) @ concat (map toString (d' # ds))))\<rparr>"
    by (rule Cons.IH)
  also have "\<dots> = t\<lparr>buffer := partial_tail (buffer t @ concat (map toString (d # d' # ds))),
       emitted := emitted t @
         map Message (frames (buffer t @ concat (map toString (d # d' # ds))))\<rparr>"
    using partial_tail_append [of "buffer t @ toString d" "concat (map toString (d' # ds))"]
      frames_append [of "buffer t @ toString d" "concat (map toString (d' # ds))"]
    by (simp add: handleData_eq)
  finally show ?case .
qed

lemma utf8_decode_ascii:
  "\<forall>b \<in> set a. unat b \<le> 0x7F \<Longrightarrow>
   utf8_decode utf8_init (a @ r) = map (\<lambda>b. of_nat (unat b)) a @ utf8_decode utf8_init r"
  by (induction a) (simp_all add: utf8_lead_def utf8_init_def)

lemma toString_ascii_append:
  assumes "\<forall>b \<in> set a. unat b \<le> 0x7F"
  shows "toString (a @ r) = toString a @ toString r"
proof -
  have 1: "utf8_decode utf8_init (a @ r) = map (\<lambda>b. of_nat (unat b)) a @ utf8_decode utf8_init r"
    using assms by (rule utf8_decode_ascii)
  have 2: "utf8_decode utf8_init (a @ []) = map (\<lambda>b. of_nat (unat b)) a @ utf8_decode utf8_init []"
    using assms by (rule utf8_decode_ascii)
  have 3: "utf8_decode utf8_init [] = []" by (simp add: utf8_init_def)
  from 2 3 have "utf8_decode utf8_init a = map (\<lambda>b. of_nat (unat b)) a" by simp
  with 1 show ?thesis by (simp add: toString_def)
qed

lemma toString_ascii_concat:
  "\<forall>d \<in> set ds. \<forall>b \<in> set d. unat b \<le> 0x7F \<Longrightarrow>
   concat (map toString ds) = toString (concat ds)"
proof (induction ds)
  case Nil
  show ?case by (simp add: toString_def utf8_init_def)
next
  case (Cons d ds)
  then show ?case by (simp add: toString_ascii_append)
qed

lemma feed_ascii_chunking:
  assumes "\<forall>d \<in> set ds. \<forall>b \<in> set d. unat b \<le> 0x7F" and "ds \<noteq> []"
  shows "feed ds t = handleData (concat ds) t"
proof -
  from assms(2) obtain d ds' where ds: "ds = d # ds'" by (cases ds) auto
  have "feed ds t = t\<lparr>buffer := partial_tail (buffer t @ concat (map toString ds)),
       emitted := emitted t @ map Message (frames (buffer t @ concat (map toString ds)))\<rparr>"
    unfolding ds by (rule feed_eq)
  also have "concat (map toString ds) = toString (concat ds)"
    using assms(1) by (rule toString_ascii_concat)
  finally show ?thesis by (simp add: handleData_eq)
qed

section \<open>The claims\<close>

text \<open>
  C1. The claim: stdout data that arrives while the call is in flight, before the grace
  timer, cancels both timers, resolves \<open>connect()\<close> at once and is framed without loss.
  The stdout handler cancels the timers and frames the data, but never calls
  \<open>resolveOnce\<close>. Evaluated: the child of the first call writes the line \<open>{"a":1}\<close>
  before any timer has fired. The frame is published and both timers are cancelled; the
  call stays unsettled, the transport is not connected, and neither timer can fire any
  more.
\<close>

theorem stdout_data_before_grace_never_settles:
  "emitted (run test_config
      [Connect None, StdoutData 0 [0x7B,0x22,0x61,0x22,0x3A,0x31,0x7D,0x0A]] new_transport)
     = [Message [0x7B,0x22,0x61,0x22,0x3A,0x31,0x7D]]
   \<and> run test_config
      [Connect None, StdoutData 0 [0x7B,0x22,0x61,0x22,0x3A,0x31,0x7D,0x0A]] new_transport
     = \<lparr>process = Some 0, buffer = [], connected = False,
        emitted = [Message [0x7B,0x22,0x61,0x22,0x3A,0x31,0x7D]],
        calls = [new_call\<lparr>spawned := True, connectionDelay := False, timeout := False,
                           settled := False, promise := []\<rparr>],
        error_listeners = 0, uncaught = []\<rparr>
   \<and> \<not> isConnected (run test_config
      [Connect None, StdoutData 0 [0x7B,0x22,0x61,0x22,0x3A,0x31,0x7D,0x0A]] new_transport)
   \<and> run test_config
      [Connect None, StdoutData 0 [0x7B,0x22,0x61,0x22,0x3A,0x31,0x7D,0x0A],
       GraceTimer 0, TimeoutTimer 0 Delivered] new_transport
     = run test_config
      [Connect None, StdoutData 0 [0x7B,0x22,0x61,0x22,0x3A,0x31,0x7D,0x0A]] new_transport"
  by (simp add: machine_eval framer_eval)

text \<open>
  C2. The claim: a \<open>connect()\<close> call settles at most once, whichever of the grace timer,
  the timeout timer, the first stdout data, a spawn error and a close before settlement
  fires first decides the outcome, and a signal that fires after settlement changes
  nothing. A call does settle at most once (\<open>settles_at_most_once\<close>). Evaluated: stdout
  data that fires first settles nothing, and the close that follows rejects the call, so
  the signal that fired first did not decide. And the grace timer resolves a call without
  cancelling its timeout timer: when that timer fires afterwards the promise stays
  resolved, but \<open>cleanup\<close> runs, the child of the established connection is killed and
  the connected flag cleared.
\<close>

theorem first_signal_does_not_decide:
  "promise (calls (run test_config
      [Connect None, StdoutData 0 [0x7B,0x22,0x61,0x22,0x3A,0x31,0x7D,0x0A]] new_transport) ! 0) = []
   \<and> \<not> settled (calls (run test_config
      [Connect None, StdoutData 0 [0x7B,0x22,0x61,0x22,0x3A,0x31,0x7D,0x0A]] new_transport) ! 0)
   \<and> promise (calls (run test_config
      [Connect None, StdoutData 0 [0x7B,0x22,0x61,0x22,0x3A,0x31,0x7D,0x0A],
       ProcessClose 0 (Some 0) None] new_transport) ! 0)
     = [Rejected (ExitedDuringConnection (Some 0) None)]
   \<and> run test_config [Connect None, GraceTimer 0] new_transport
     = \<lparr>process = Some 0, buffer = [], connected = True, emitted = [],
        calls = [new_call\<lparr>spawned := True, timeout := True, settled := True,
                           promise := [Resolved]\<rparr>],
        error_listeners = 0, uncaught = []\<rparr>
   \<and> run test_config [Connect None, GraceTimer 0, TimeoutTimer 0 Delivered] new_transport
     = \<lparr>process = None, buffer = [], connected = False, emitted = [],
        calls = [new_call\<lparr>spawned := True, killed := True, signals := [SIGTERM],
                           settled := True, promise := [Resolved]\<rparr>],
        error_listeners = 0, uncaught = []\<rparr>"
  by (simp add: machine_eval framer_eval)

text \<open>
  C3. The claim: every way of cutting one byte stream into chunks yields the same frames.
  \<open>handleData\<close> decodes each chunk on its own. Evaluated: the three bytes of \<^verbatim>\<open>C3 A9 0A\<close>
  (the letter e with acute accent in UTF-8, then a newline) give the frame U+00E9 as one
  chunk, and the frame U+FFFD U+FFFD when the chunk boundary falls inside the character.
\<close>

theorem split_multibyte_character:
  "concat [[0xC3], [0xA9, 0x0A]] = concat [[0xC3, 0xA9, 0x0A :: byte]]
   \<and> emitted (feed [[0xC3, 0xA9, 0x0A]] new_transport) = [Message [0xE9]]
   \<and> emitted (feed [[0xC3], [0xA9, 0x0A]] new_transport) = [Message [0xFFFD, 0xFFFD]]"
  by (simp add: new_transport_def framer_eval)

text \<open>
  C4, as stated, fails: a second \<open>connect()\<close> while the first is in flight (its child
  alive, its promise unsettled) spawns a second child and replaces the handle; both
  children are alive.
\<close>

theorem connect_while_spawning_counterexample:
  "process (connect None new_transport) = Some 0
   \<and> \<not> killed (calls (connect None new_transport) ! 0)
   \<and> exitCode (calls (connect None new_transport) ! 0) = None
   \<and> \<not> settled (calls (connect None new_transport) ! 0)
   \<and> connect None (connect None new_transport) \<noteq> connect None new_transport
   \<and> process (connect None (connect None new_transport)) = Some 1
   \<and> map spawned (calls (connect None (connect None new_transport))) = [True, True]
   \<and> map killed (calls (connect None (connect None new_transport))) = [False, False]
   \<and> map exitCode (calls (connect None (connect None new_transport))) = [None, None]"
  by (simp add: connect_def new_transport_def new_call_def)

text \<open>
  C4, amended. A \<open>connect()\<close> call while the transport is connected is a no-op: it spawns
  no process and leaves the transport as it is.
\<close>

theorem connect_when_connected_noop:
  "connected t \<Longrightarrow> connect thrown t = t"
  by (simp add: connect_def)

theorem connect_when_connected_noop_witness:
  "connected (run test_config [Connect None, GraceTimer 0] new_transport)
   \<and> connect None (run test_config [Connect None, GraceTimer 0] new_transport)
       = run test_config [Connect None, GraceTimer 0] new_transport
   \<and> map spawned (calls (connect None (run test_config [Connect None, GraceTimer 0] new_transport)))
       = [True]"
proof -
  let ?t = "run test_config [Connect None, GraceTimer 0] new_transport"
  have h: "connected ?t" "map spawned (calls ?t) = [True]"
    unfolding grace_state by (simp_all add: new_call_def)
  from connect_when_connected_noop [OF h(1), of None] h show ?thesis by simp
qed

text \<open>
  C5, as stated, fails in its last part: \<open>disconnect\<close> does not always empty the buffer.
  The handlers of a child stay registered after \<open>cleanup\<close>. Stdout data that arrives
  after a \<open>disconnect\<close> refills the buffer while the transport holds no handle, and the
  next \<open>disconnect\<close> returns at once and leaves it there; the stale text then opens the
  first frame of the next connection.
\<close>

theorem disconnect_keeps_late_data_counterexample:
  "process (run test_config
      [Connect None, Disconnect Delivered, StdoutData 0 [0x7B]] new_transport) = None
   \<and> buffer (run test_config
      [Connect None, Disconnect Delivered, StdoutData 0 [0x7B]] new_transport) = [0x7B]
   \<and> buffer (disconnect Delivered (run test_config
      [Connect None, Disconnect Delivered, StdoutData 0 [0x7B]] new_transport)) = [0x7B]
   \<and> emitted (run test_config
      [Connect None, Disconnect Delivered, StdoutData 0 [0x7B], Disconnect Delivered,
       Connect None, StdoutData 1 [0x7D, 0x0A]] new_transport) = [Message [0x7B, 0x7D]]"
  by (simp add: machine_eval framer_eval)

text \<open>
  C5, amended. \<open>handleData\<close> appends the decoded chunk to the carry-over buffer. The text
  so obtained is, in exactly one way, a sequence of complete lines, each followed by its
  newline, and a tail without newline. The lines, trimmed, are published as \<open>message\<close>
  notifications in their order, those that are empty after trimming being dropped; the
  buffer afterwards is the tail, so it holds no newline. \<open>cleanup\<close> empties the buffer,
  and so does \<open>disconnect\<close> when the transport holds a process handle; without a handle
  \<open>disconnect\<close> leaves the buffer as it is.
\<close>

theorem handleData_line_framer:
  "(\<exists>ls tl. buffer t @ toString data = concat (map (\<lambda>l. l @ [nl]) ls) @ tl
      \<and> (\<forall>l \<in> set ls. nl \<notin> set l) \<and> nl \<notin> set tl
      \<and> buffer (handleData data t) = tl
      \<and> emitted (handleData data t)
          = emitted t @ map Message (filter (\<lambda>l. l \<noteq> []) (map trim ls)))
   \<and> buffer (cleanup r t) = []
   \<and> (process t \<noteq> None \<longrightarrow> buffer (disconnect r t) = [])
   \<and> (process t = None \<longrightarrow> buffer (disconnect r t) = buffer t)"
proof (intro conjI impI)
  let ?s = "buffer t @ toString data"
  show "\<exists>ls tl. ?s = concat (map (\<lambda>l. l @ [nl]) ls) @ tl
      \<and> (\<forall>l \<in> set ls. nl \<notin> set l) \<and> nl \<notin> set tl
      \<and> buffer (handleData data t) = tl
      \<and> emitted (handleData data t)
          = emitted t @ map Message (filter (\<lambda>l. l \<noteq> []) (map trim ls))"
  proof (intro exI conjI)
    show "?s = concat (map (\<lambda>l. l @ [nl]) (complete_lines ?s)) @ partial_tail ?s"
      using split_acc_spec [of ?s] by blast
    show "\<forall>l \<in> set (complete_lines ?s). nl \<notin> set l" using split_acc_spec [of ?s] by blast
    show "nl \<notin> set (partial_tail ?s)" using split_acc_spec [of ?s] by blast
    show "buffer (handleData data t) = partial_tail ?s" by (simp add: handleData_eq)
    show "emitted (handleData data t)
          = emitted t @ map Message (filter (\<lambda>l. l \<noteq> []) (map trim (complete_lines ?s)))"
      by (simp add: handleData_eq frames_def)
  qed
next
  show "buffer (cleanup r t) = []" by (rule buffer_cleanup)
next
  assume "process t \<noteq> None"
  then obtain j where "process t = Some j" by auto
  then have "disconnect r t = cleanup r t" by (simp add: disconnect_def)
  then show "buffer (disconnect r t) = []" by (simp add: buffer_cleanup)
next
  assume "process t = None"
  then show "buffer (disconnect r t) = buffer t" by (simp add: disconnect_def)
qed

text \<open>
  The carry-over holds \<open>{\<close> and the chunk is \<open>"a":1}\<close>, a newline, a blank, a newline and
  \<open>{"b\<close>: one frame is published, the whitespace-only line is dropped and \<open>{"b\<close> is kept.
\<close>

theorem handleData_line_framer_witness:
  "process (handleData [0x7B] (connect None new_transport)) \<noteq> None
   \<and> buffer (handleData [0x7B] (connect None new_transport)) = [0x7B]
   \<and> buffer (handleData [0x22,0x61,0x22,0x3A,0x31,0x7D,0x0A,0x20,0x0A,0x7B,0x22,0x62]
                (handleData [0x7B] (connect None new_transport))) = [0x7B,0x22,0x62]
   \<and> emitted (handleData [0x22,0x61,0x22,0x3A,0x31,0x7D,0x0A,0x20,0x0A,0x7B,0x22,0x62]
                (handleData [0x7B] (connect None new_transport)))
        = [Message [0x7B,0x22,0x61,0x22,0x3A,0x31,0x7D]]
   \<and> buffer (disconnect Delivered (handleData [0x7B] (connect None new_transport))) = []
   \<and> process (handleData [0x7B] new_transport) = None
   \<and> buffer (disconnect Delivered (handleData [0x7B] new_transport)) = [0x7B]"
proof -
  let ?t = "handleData [0x7B] (connect None new_transport)"
  let ?u = "handleData [0x7B] new_transport"
  have p: "process ?t \<noteq> None" by (simp add: handleData_eq connect_def new_transport_def)
  have q: "process ?u = None" by (simp add: handleData_eq new_transport_def)
  have a: "buffer ?t = [0x7B]"
    and b: "buffer (handleData [0x22,0x61,0x22,0x3A,0x31,0x7D,0x0A,0x20,0x0A,0x7B,0x22,0x62] ?t)
            = [0x7B,0x22,0x62]"
    and c: "emitted (handleData [0x22,0x61,0x22,0x3A,0x31,0x7D,0x0A,0x20,0x0A,0x7B,0x22,0x62] ?t)
            = [Message [0x7B,0x22,0x61,0x22,0x3A,0x31,0x7D]]"
    and d: "buffer ?u = [0x7B]"
    by (simp_all add: framer_eval connect_def new_transport_def)
  from handleData_line_framer [of ?t "[0x22,0x61,0x22,0x3A,0x31,0x7D,0x0A,0x20,0x0A,0x7B,0x22,0x62]" Delivered]
    handleData_line_framer [of ?u "[]" Delivered]
    p q a b c d show ?thesis by simp
qed




text \<open>
  C7. While a call is unsettled, an \<open>error\<close> event of its child rejects the call with
  that error, and a \<open>close\<close> event rejects it with the error that carries the exit code
  and the signal. Either way the connected flag is clear and \<open>isConnected()\<close> is false.
\<close>

theorem failure_before_settle:
  assumes "live i t" and "\<not> settled (calls t ! i)"
  shows "(promise (calls (step cfg (ProcessError i e) t) ! i) = promise (calls t ! i) @ [Rejected e]
      \<and> settled (calls (step cfg (ProcessError i e) t) ! i)
      \<and> \<not> connected (step cfg (ProcessError i e) t)
      \<and> \<not> isConnected (step cfg (ProcessError i e) t))
    \<and> (promise (calls (step cfg (ProcessClose i code sig) t) ! i)
          = promise (calls t ! i) @ [Rejected (ExitedDuringConnection code sig)]
      \<and> settled (calls (step cfg (ProcessClose i code sig) t) ! i)
      \<and> \<not> connected (step cfg (ProcessClose i code sig) t)
      \<and> \<not> isConnected (step cfg (ProcessClose i code sig) t))"
  using assms
  by (simp add: live_def on_error_def on_close_def clear_timeout_def clear_connectionDelay_def
      rejectOnce_def upd_call_def isConnected_def emit_def Let_def)

theorem failure_before_settle_witness:
  "live 0 (connect None new_transport) \<and> \<not> settled (calls (connect None new_transport) ! 0)
   \<and> promise (calls (step test_config (ProcessError 0 (PlatformError ''spawn ENOENT''))
        (connect None new_transport)) ! 0) = [Rejected (PlatformError ''spawn ENOENT'')]
   \<and> promise (calls (step test_config (ProcessClose 0 (Some 1) None)
        (connect None new_transport)) ! 0) = [Rejected (ExitedDuringConnection (Some 1) None)]
   \<and> \<not> isConnected (step test_config (ProcessError 0 (PlatformError ''spawn ENOENT''))
        (connect None new_transport))
   \<and> \<not> isConnected (step test_config (ProcessClose 0 (Some 1) None) (connect None new_transport))"
proof -
  let ?t = "connect None new_transport"
  have h: "live 0 ?t" "\<not> settled (calls ?t ! 0)" "promise (calls ?t ! 0) = []"
    by (simp_all add: connect_def new_transport_def new_call_def live_def)
  from failure_before_settle [OF h(1,2), of test_config "PlatformError ''spawn ENOENT''" "Some 1" None]
    h show ?thesis by simp
qed

text \<open>
  C8, as stated, fails twice. With no listener for \<open>error\<close> on the transport, \<open>send\<close> while
  not connected throws the error out of the call. And a write that fails after \<open>write\<close>
  has returned (a closed pipe) is not seen by the \<open>catch\<close>: \<open>send\<close> returns, nothing is
  written and nothing is published.
\<close>

theorem send_throws_or_stays_silent_counterexample:
  "send [0x7B, 0x7D] Written new_transport = Inl NotConnected
   \<and> process (run test_config [OnError, Connect None, GraceTimer 0] new_transport) = Some 0
   \<and> connected (run test_config [OnError, Connect None, GraceTimer 0] new_transport)
   \<and> error_listeners (run test_config [OnError, Connect None, GraceTimer 0] new_transport) = 1
   \<and> send [0x7B, 0x7D] (WriteFailsLater (PlatformError ''EPIPE''))
        (run test_config [OnError, Connect None, GraceTimer 0] new_transport)
      = Inr (run test_config [OnError, Connect None, GraceTimer 0] new_transport)"
  unfolding listening_state by (simp add: machine_eval)

text \<open>
  C8, amended. While a listener for \<open>error\<close> is registered on the transport, \<open>send\<close> does
  not throw for the failures it reports: without a handle, or when not connected, it
  publishes the error \<open>NotConnected\<close> and changes nothing else (nothing is written), and
  when the write throws it publishes the thrown error and changes nothing else. With a
  handle and connected, a write that the stream accepts puts the message followed by one
  newline on the child's stdin. With no listener for \<open>error\<close>, the error that would be
  published is thrown out of \<open>send\<close> instead.
\<close>

theorem send_reports_on_error_channel:
  "(0 < error_listeners t \<longrightarrow>
      (process t = None \<or> \<not> connected t \<longrightarrow>
         send message w t = Inr (t\<lparr>emitted := emitted t @ [ErrorEvent NotConnected]\<rparr>))
      \<and> (process t = Some j \<and> connected t \<longrightarrow>
           send message (WriteThrows e) t = Inr (t\<lparr>emitted := emitted t @ [ErrorEvent e]\<rparr>)))
   \<and> (process t = Some j \<and> connected t \<longrightarrow>
        send message Written t
          = Inr (t\<lparr>calls := (calls t)
                  [j := (calls t ! j)\<lparr>stdin := stdin (calls t ! j) @ [message @ [nl]]\<rparr>]\<rparr>))
   \<and> (error_listeners t = 0 \<longrightarrow>
        (process t = None \<or> \<not> connected t \<longrightarrow> send message w t = Inl NotConnected)
        \<and> (process t = Some j \<and> connected t \<longrightarrow> send message (WriteThrows e) t = Inl e))"
  by (auto simp: send_def emit_error_def emit_def stdin_write_def split: option.splits)

theorem send_reports_on_error_channel_witness:
  "0 < error_listeners (step test_config OnError new_transport)
   \<and> process (step test_config OnError new_transport) = None
   \<and> send [0x7B, 0x7D] Written (step test_config OnError new_transport)
       = Inr (new_transport\<lparr>error_listeners := 1, emitted := [ErrorEvent NotConnected]\<rparr>)
   \<and> process (run test_config [OnError, Connect None, GraceTimer 0] new_transport) = Some 0
   \<and> connected (run test_config [OnError, Connect None, GraceTimer 0] new_transport)
   \<and> send [0x7B, 0x7D] Written
        (run test_config [OnError, Connect None, GraceTimer 0] new_transport)
       = Inr \<lparr>process = Some 0, buffer = [], connected = True, emitted = [],
              calls = [new_call\<lparr>spawned := True, stdin := [[0x7B, 0x7D, 0x0A]], timeout := True,
                                 settled := True, promise := [Resolved]\<rparr>],
              error_listeners = 1, uncaught = []\<rparr>
   \<and> send [0x7B, 0x7D] (WriteThrows (PlatformError ''ERR_INVALID_ARG_TYPE''))
        (run test_config [OnError, Connect None, GraceTimer 0] new_transport)
       = Inr \<lparr>process = Some 0, buffer = [], connected = True,
              emitted = [ErrorEvent (PlatformError ''ERR_INVALID_ARG_TYPE'')],
              calls = [new_call\<lparr>spawned := True, timeout := True,
                                 settled := True, promise := [Resolved]\<rparr>],
              error_listeners = 1, uncaught = []\<rparr>
   \<and> error_listeners new_transport = 0
   \<and> send [0x7B, 0x7D] Written new_transport = Inl NotConnected"
proof -
  let ?n = "step test_config OnError new_transport"
  let ?t = "run test_config [OnError, Connect None, GraceTimer 0] new_transport"
  have n: "0 < error_listeners ?n" "process ?n = None" "emitted ?n = []"
    "?n = new_transport\<lparr>error_listeners := 1\<rparr>"
    "error_listeners new_transport = 0" "process new_transport = None"
    by (simp_all add: new_transport_def)
  have h: "0 < error_listeners ?t" "process ?t = Some 0" "connected ?t"
    unfolding listening_state by simp_all
  have w: "?t\<lparr>calls := (calls ?t)
             [0 := (calls ?t ! 0)\<lparr>stdin := stdin (calls ?t ! 0) @ [[0x7B, 0x7D] @ [nl]]\<rparr>]\<rparr>
      = \<lparr>process = Some 0, buffer = [], connected = True, emitted = [],
         calls = [new_call\<lparr>spawned := True, stdin := [[0x7B, 0x7D, 0x0A]], timeout := True,
                            settled := True, promise := [Resolved]\<rparr>],
         error_listeners = 1, uncaught = []\<rparr>"
    unfolding listening_state by (simp add: new_call_def nl_def)
  have x: "?t\<lparr>emitted := emitted ?t @ [ErrorEvent (PlatformError ''ERR_INVALID_ARG_TYPE'')]\<rparr>
      = \<lparr>process = Some 0, buffer = [], connected = True,
         emitted = [ErrorEvent (PlatformError ''ERR_INVALID_ARG_TYPE'')],
         calls = [new_call\<lparr>spawned := True, timeout := True,
                            settled := True, promise := [Resolved]\<rparr>],
         error_listeners = 1, uncaught = []\<rparr>"
    unfolding listening_state by simp
  from send_reports_on_error_channel
      [where t = ?n and message = "[0x7B, 0x7D]" and w = Written]
    send_reports_on_error_channel
      [where t = ?t and j = 0 and message = "[0x7B, 0x7D]"
        and e = "PlatformError ''ERR_INVALID_ARG_TYPE''"]
    send_reports_on_error_channel
      [where t = new_transport and message = "[0x7B, 0x7D]" and w = Written]
    n h w x show ?thesis by simp
qed

text \<open>
  C9. \<open>disconnect\<close> without a handle returns the transport unchanged. With a handle it
  calls \<open>kill\<close> with SIGTERM on the child, drops the handle, clears the connected flag and
  empties the buffer; the exit status of the child is as before, for the call does not
  wait for the exit. Afterwards there is no handle, so a second \<open>disconnect\<close> changes
  nothing. All this whatever the platform answers to \<open>kill\<close>.
\<close>

theorem disconnect_idempotent:
  "(process t = None \<longrightarrow> disconnect r t = t)
   \<and> (process t = Some j \<longrightarrow>
        disconnect r t
          = t\<lparr>calls := (calls t)[j := kill SIGTERM r (calls t ! j)], process := None,
              connected := False, buffer := []\<rparr>
        \<and> (j < length (calls t) \<longrightarrow>
             signals (calls (disconnect r t) ! j) = signals (calls t ! j) @ [SIGTERM]
             \<and> exitCode (calls (disconnect r t) ! j) = exitCode (calls t ! j)
             \<and> signalCode (calls (disconnect r t) ! j) = signalCode (calls t ! j)))
   \<and> process (disconnect r t) = None
   \<and> disconnect r' (disconnect r t) = disconnect r t"
  by (auto simp: disconnect_def cleanup_def upd_call_def kill_def split: option.splits)

theorem disconnect_idempotent_witness:
  "process new_transport = None \<and> disconnect Delivered new_transport = new_transport
   \<and> process (run test_config [Connect None, GraceTimer 0] new_transport) = Some 0
   \<and> disconnect Delivered (run test_config [Connect None, GraceTimer 0] new_transport)
       = \<lparr>process = None, buffer = [], connected = False, emitted = [],
          calls = [new_call\<lparr>spawned := True, killed := True, signals := [SIGTERM],
                             timeout := True, settled := True, promise := [Resolved]\<rparr>],
          error_listeners = 0, uncaught = []\<rparr>"
proof -
  let ?t = "run test_config [Connect None, GraceTimer 0] new_transport"
  have n: "process new_transport = None" by (simp add: new_transport_def)
  have h: "process ?t = Some 0" unfolding grace_state by simp
  have e: "?t\<lparr>calls := (calls ?t)[0 := kill SIGTERM Delivered (calls ?t ! 0)], process := None,
              connected := False, buffer := []\<rparr>
      = \<lparr>process = None, buffer = [], connected = False, emitted = [],
          calls = [new_call\<lparr>spawned := True, killed := True, signals := [SIGTERM],
                             timeout := True, settled := True, promise := [Resolved]\<rparr>],
          error_listeners = 0, uncaught = []\<rparr>"
    unfolding grace_state by (simp add: kill_def new_call_def)
  from disconnect_idempotent [where t = new_transport and r = Delivered]
    disconnect_idempotent [where t = ?t and j = 0 and r = Delivered] n h e
  show ?thesis by simp
qed

text \<open>
  C10. While a call is unsettled, stdout data of its child publishes the frames of the
  carry-over and the decoded chunk as \<open>message\<close> notifications, and stderr data publishes
  its trimmed text as a \<open>log\<close> notification unless that is empty. The call is still
  unsettled afterwards: the notifications come before \<open>connect()\<close> resolves or rejects.
\<close>

theorem notifications_before_settle:
  assumes "live i t" and "\<not> settled (calls t ! i)"
  shows "(emitted (step cfg (StdoutData i data) t)
            = emitted t @ map Message (frames (buffer t @ toString data))
        \<and> \<not> settled (calls (step cfg (StdoutData i data) t) ! i)
        \<and> promise (calls (step cfg (StdoutData i data) t) ! i) = promise (calls t ! i))
    \<and> (emitted (step cfg (StderrData i data) t)
            = emitted t @ (if trim (toString data) \<noteq> [] then [Log (trim (toString data))] else [])
        \<and> \<not> settled (calls (step cfg (StderrData i data) t) ! i)
        \<and> promise (calls (step cfg (StderrData i data) t) ! i) = promise (calls t ! i))"
  using assms
  by (simp add: live_def on_stdout_data_def on_stderr_data_def handleData_eq
      clear_connectionDelay_def clear_timeout_def upd_call_def emit_def)

text \<open>
  A call in flight whose child writes the line \<open>{"a":1}\<close> to stdout, or the line
  \<open>ready\<close> to stderr.
\<close>

theorem notifications_before_settle_witness:
  "live 0 (connect None new_transport) \<and> \<not> settled (calls (connect None new_transport) ! 0)
   \<and> emitted (step test_config (StdoutData 0 [0x7B,0x22,0x61,0x22,0x3A,0x31,0x7D,0x0A])
        (connect None new_transport)) = [Message [0x7B,0x22,0x61,0x22,0x3A,0x31,0x7D]]
   \<and> emitted (step test_config (StderrData 0 [0x72,0x65,0x61,0x64,0x79,0x0A])
        (connect None new_transport)) = [Log [0x72,0x65,0x61,0x64,0x79]]
   \<and> promise (calls (step test_config (StdoutData 0 [0x7B,0x22,0x61,0x22,0x3A,0x31,0x7D,0x0A])
        (connect None new_transport)) ! 0) = []"
proof -
  let ?t = "connect None new_transport"
  have h: "live 0 ?t" "\<not> settled (calls ?t ! 0)" "promise (calls ?t ! 0) = []"
    "emitted ?t = []" "buffer ?t = []"
    by (simp_all add: connect_def new_transport_def new_call_def live_def)
  have f: "frames (toString [0x7B,0x22,0x61,0x22,0x3A,0x31,0x7D,0x0A])
      = [[0x7B,0x22,0x61,0x22,0x3A,0x31,0x7D]]"
    by (simp add: frames_def complete_lines_def framer_eval)
  have g: "trim (toString [0x72,0x65,0x61,0x64,0x79,0x0A]) = [0x72,0x65,0x61,0x64,0x79]"
    by (simp add: framer_eval)
  from notifications_before_settle [OF h(1,2), of test_config "[0x7B,0x22,0x61,0x22,0x3A,0x31,0x7D,0x0A]"]
    notifications_before_settle [OF h(1,2), of test_config "[0x72,0x65,0x61,0x64,0x79,0x0A]"]
    h f g show ?thesis by simp
qed

end
